theory Spec2Isabelle
  imports Complex_Main "HOL-Library.Product_Lexorder" "HOL-Library.Log_Nat"
begin

section \<open>Python strings\<close>

text \<open>
  A Python \<open>str\<close> is a sequence of code points. The development models the code points
  0..255 (Latin-1), one \<^typ>\<open>char\<close> per code point, so \<^const>\<open>length\<close> is Python's
  \<open>len\<close>. The library functions of \<open>str\<close> used by \<open>validator.py\<close> are written out
  for that range.
\<close>

definition isspace :: "char \<Rightarrow> bool" where
  \<comment> \<open>\<open>str.isspace\<close> on one code point; the set \<open>str.split()\<close> and \<open>str.strip()\<close> use.\<close>
  "isspace c = (of_char c \<in> {9, 10, 11, 12, 13, 28, 29, 30, 31, 32, 133, 160 :: nat})"

definition lower_char :: "char \<Rightarrow> char" where
  \<comment> \<open>\<open>str.lower\<close> on one code point: A-Z, and the Latin-1 capitals 192..222 except 215.\<close>
  "lower_char c =
     (let n = of_char c :: nat
      in if (65 \<le> n \<and> n \<le> 90) \<or> (192 \<le> n \<and> n \<le> 222 \<and> n \<noteq> 215)
         then char_of (n + 32) else c)"

definition lower :: "string \<Rightarrow> string" where
  "lower s = map lower_char s"

fun split_acc :: "string \<Rightarrow> string \<Rightarrow> string list" where
  "split_acc cur [] = (if cur = [] then [] else [cur])"
| "split_acc cur (c # cs) =
     (if isspace c then (if cur = [] then split_acc [] cs else cur # split_acc [] cs)
      else split_acc (cur @ [c]) cs)"

definition split :: "string \<Rightarrow> string list" where
  \<comment> \<open>\<open>s.split()\<close>: the maximal runs of non-whitespace, in order.\<close>
  "split s = split_acc [] s"

definition strip :: "string \<Rightarrow> string" where
  \<comment> \<open>\<open>s.strip()\<close>: leading and trailing whitespace removed.\<close>
  "strip s = rev (dropWhile isspace (rev (dropWhile isspace s)))"

definition is_linebreak :: "char \<Rightarrow> bool" where
  \<comment> \<open>The line boundaries of \<open>str.splitlines\<close> among the code points 0..255.\<close>
  "is_linebreak c = (of_char c \<in> {10, 11, 12, 13, 28, 29, 30, 133 :: nat})"

fun splitlines_acc :: "string \<Rightarrow> string \<Rightarrow> string list" where
  "splitlines_acc cur [] = (if cur = [] then [] else [cur])"
| "splitlines_acc cur [c] = (if is_linebreak c then [cur] else [cur @ [c]])"
| "splitlines_acc cur (c # d # cs) =
     (if c = CHR 0x0D \<and> d = CHR 0x0A then cur # splitlines_acc [] cs
      else if is_linebreak c then cur # splitlines_acc [] (d # cs)
      else splitlines_acc (cur @ [c]) (d # cs))"

definition splitlines :: "string \<Rightarrow> string list" where
  \<comment> \<open>\<open>s.splitlines()\<close>: \<open>\r\n\<close> is one boundary; no empty last line.\<close>
  "splitlines s = splitlines_acc [] s"

fun contains :: "string \<Rightarrow> string \<Rightarrow> bool" where
  \<comment> \<open>\<open>k in t\<close> for strings: \<open>k\<close> occurs in \<open>t\<close> as a contiguous substring.\<close>
  "contains [] k = (k = [])"
| "contains (c # cs) k = (take (length k) (c # cs) = k \<or> contains cs k)"

definition slice :: "'a list \<Rightarrow> nat \<Rightarrow> nat \<Rightarrow> 'a list" where
  \<comment> \<open>\<open>xs[i:j]\<close> for non-negative \<open>i\<close>, \<open>j\<close>.\<close>
  "slice xs i j = take (j - i) (drop i xs)"

section \<open>The sequence matcher\<close>

text \<open>
  \<open>simple_diff\<close> and \<open>fuzzy_ratio\<close> call \<open>difflib.SequenceMatcher(None, a, b)\<close>: no junk
  predicate, \<open>autojunk\<close> left at its default \<open>True\<close>. The matcher is embedded as the
  standard library defines it. Its set \<open>bjunk\<close> is empty here, so the two loops of
  \<open>find_longest_match\<close> that absorb junk never run and the test \<open>not isbjunk(...)\<close> of
  the two loops before them is always true.
\<close>

definition chain_b :: "'a list \<Rightarrow> ('a \<rightharpoonup> nat list)" where
  \<comment> \<open>\<open>b2j\<close>: the indices of each element of \<open>b\<close>, ascending; when \<open>len(b) >= 200\<close> the
      elements that occur more than \<open>len(b) // 100 + 1\<close> times are deleted.\<close>
  "chain_b b =
     (let b2j = fold (\<lambda>(i, elt) m. m(elt \<mapsto> (case m elt of None \<Rightarrow> [] | Some idxs \<Rightarrow> idxs) @ [i]))
                  (enumerate 0 b) Map.empty;
          n = length b
      in if n \<ge> 200
         then (let ntest = n div 100 + 1
               in (\<lambda>elt. case b2j elt of None \<Rightarrow> None
                      | Some idxs \<Rightarrow> if length idxs > ntest then None else Some idxs))
         else b2j)"

type_synonym best = "nat \<times> nat \<times> nat"

fun flm_inner :: "nat \<Rightarrow> nat \<Rightarrow> nat \<Rightarrow> (nat \<rightharpoonup> nat) \<Rightarrow> nat list
    \<Rightarrow> (nat \<rightharpoonup> nat) \<times> best \<Rightarrow> (nat \<rightharpoonup> nat) \<times> best" where
  \<comment> \<open>The loop \<open>for j in b2j.get(a[i], nothing)\<close>; \<open>break\<close> ends it. The key \<open>j-1\<close> of
      \<open>j = 0\<close> is \<open>-1\<close>, which is never in \<open>j2len\<close>.\<close>
  "flm_inner i blo bhi j2len [] st = st"
| "flm_inner i blo bhi j2len (j # js) (newj2len, besti, bestj, bestsize) =
     (if j < blo then flm_inner i blo bhi j2len js (newj2len, besti, bestj, bestsize)
      else if j \<ge> bhi then (newj2len, besti, bestj, bestsize)
      else (let k = (if j = 0 then 0 else case j2len (j - 1) of None \<Rightarrow> 0 | Some v \<Rightarrow> v) + 1;
                newj2len' = newj2len(j \<mapsto> k)
            in if k > bestsize
               then flm_inner i blo bhi j2len js (newj2len', i + 1 - k, j + 1 - k, k)
               else flm_inner i blo bhi j2len js (newj2len', besti, bestj, bestsize)))"

fun flm_outer :: "'a list \<Rightarrow> ('a \<rightharpoonup> nat list) \<Rightarrow> nat \<Rightarrow> nat \<Rightarrow> nat list
    \<Rightarrow> (nat \<rightharpoonup> nat) \<times> best \<Rightarrow> (nat \<rightharpoonup> nat) \<times> best" where
  \<comment> \<open>The loop \<open>for i in range(alo, ahi)\<close>.\<close>
  "flm_outer a b2j blo bhi [] st = st"
| "flm_outer a b2j blo bhi (i # is) (j2len, bst) =
     flm_outer a b2j blo bhi is
       (flm_inner i blo bhi j2len (case b2j (a ! i) of None \<Rightarrow> [] | Some js \<Rightarrow> js)
          (Map.empty, bst))"

function extend_left :: "'a list \<Rightarrow> 'a list \<Rightarrow> nat \<Rightarrow> nat \<Rightarrow> best \<Rightarrow> best" where
  "extend_left a b alo blo (besti, bestj, bestsize) =
     (if besti > alo \<and> bestj > blo \<and> a ! (besti - 1) = b ! (bestj - 1)
      then extend_left a b alo blo (besti - 1, bestj - 1, bestsize + 1)
      else (besti, bestj, bestsize))"
  by pat_completeness auto
termination
  by (relation "measure (\<lambda>(a, b, alo, blo, besti, bestj, bestsize). besti)") auto

function extend_right :: "'a list \<Rightarrow> 'a list \<Rightarrow> nat \<Rightarrow> nat \<Rightarrow> best \<Rightarrow> best" where
  "extend_right a b ahi bhi (besti, bestj, bestsize) =
     (if besti + bestsize < ahi \<and> bestj + bestsize < bhi
         \<and> a ! (besti + bestsize) = b ! (bestj + bestsize)
      then extend_right a b ahi bhi (besti, bestj, bestsize + 1)
      else (besti, bestj, bestsize))"
  by pat_completeness auto
termination
  by (relation "measure (\<lambda>(a, b, ahi, bhi, besti, bestj, bestsize). ahi - (besti + bestsize))") auto

definition find_longest_match :: "'a list \<Rightarrow> 'a list \<Rightarrow> ('a \<rightharpoonup> nat list)
    \<Rightarrow> nat \<Rightarrow> nat \<Rightarrow> nat \<Rightarrow> nat \<Rightarrow> best" where
  "find_longest_match a b b2j alo ahi blo bhi =
     extend_right a b ahi bhi
       (extend_left a b alo blo
          (snd (flm_outer a b2j blo bhi [alo..<ahi] (Map.empty, alo, blo, 0))))"

subsection \<open>The longest match is a match inside its window\<close>

declare extend_left.simps [simp del] extend_right.simps [simp del]


definition b2j_sound :: "'a list \<Rightarrow> ('a \<rightharpoonup> nat list) \<Rightarrow> bool" where
  "b2j_sound b b2j = (\<forall>x js j. b2j x = Some js \<longrightarrow> j \<in> set js \<longrightarrow> b ! j = x)"

definition best_ok :: "'a list \<Rightarrow> 'a list \<Rightarrow> nat \<Rightarrow> nat \<Rightarrow> nat \<Rightarrow> nat \<Rightarrow> best \<Rightarrow> bool" where
  "best_ok a b alo ahi blo bhi bst =
     (case bst of (besti, bestj, bestsize) \<Rightarrow>
        alo \<le> besti \<and> blo \<le> bestj
        \<and> ((bestsize = 0 \<and> besti = alo \<and> bestj = blo)
           \<or> (besti + bestsize \<le> ahi \<and> bestj + bestsize \<le> bhi))
        \<and> (\<forall>t<bestsize. a ! (besti + t) = b ! (bestj + t)))"

definition j2len_ok :: "'a list \<Rightarrow> 'a list \<Rightarrow> nat \<Rightarrow> nat \<Rightarrow> nat \<Rightarrow> (nat \<rightharpoonup> nat) \<Rightarrow> bool" where
  "j2len_ok a b alo blo i j2len =
     (\<forall>j v. j2len j = Some v \<longrightarrow>
        1 \<le> v \<and> v \<le> i - alo \<and> v \<le> j + 1 - blo
        \<and> (\<forall>t<v. a ! (i - v + t) = b ! (j + 1 - v + t)))"

lemma j2len_ok_empty: "j2len_ok a b alo blo i Map.empty"
  by (simp add: j2len_ok_def)

lemma flm_inner_inv:
  assumes "j2len_ok a b alo blo i j2len" "alo \<le> i" "i < ahi"
    and "\<forall>j\<in>set js. b ! j = a ! i"
    and "j2len_ok a b alo blo (Suc i) newj2len"
    and "best_ok a b alo ahi blo bhi bst"
    and "flm_inner i blo bhi j2len js (newj2len, bst) = (n', b')"
  shows "j2len_ok a b alo blo (Suc i) n' \<and> best_ok a b alo ahi blo bhi b'"
  using assms(4-)
proof (induction js arbitrary: newj2len bst)
  case Nil
  then show ?case by simp
next
  case (Cons j js)
  obtain besti bestj bestsize where bst: "bst = (besti, bestj, bestsize)"
    by (cases bst) auto
  show ?case
  proof (cases "j < blo")
    case True
    with Cons bst show ?thesis by simp
  next
    case lo: False
    show ?thesis
    proof (cases "j \<ge> bhi")
      case True
      with Cons lo bst show ?thesis by simp
    next
      case hi: False
      define prev where "prev = (if j = 0 then 0 else case j2len (j - 1) of None \<Rightarrow> 0 | Some v \<Rightarrow> v)"
      define k where "k = prev + 1"
      have bj: "b ! j = a ! i" using Cons.prems(1) by simp
      have prev_ok: "prev \<le> i - alo \<and> prev \<le> j - blo \<and> (\<forall>t<prev. a ! (i - prev + t) = b ! (j - prev + t))"
      proof (cases "j = 0")
        case True
        then show ?thesis by (simp add: prev_def)
      next
        case j0: False
        show ?thesis
        proof (cases "j2len (j - 1)")
          case None
          with j0 show ?thesis by (simp add: prev_def)
        next
          case (Some v)
          with j0 have pv: "prev = v" by (simp add: prev_def)
          from assms(1) Some have "1 \<le> v \<and> v \<le> i - alo \<and> v \<le> (j - 1) + 1 - blo
              \<and> (\<forall>t<v. a ! (i - v + t) = b ! ((j - 1) + 1 - v + t))"
            unfolding j2len_ok_def by blast
          with j0 pv show ?thesis by simp
        qed
      qed
      have kmatch: "\<forall>t<k. a ! (i + 1 - k + t) = b ! (j + 1 - k + t)"
      proof (intro allI impI)
        fix t assume "t < k"
        show "a ! (i + 1 - k + t) = b ! (j + 1 - k + t)"
        proof (cases "t < prev")
          case True
          with prev_ok have "a ! (i - prev + t) = b ! (j - prev + t)" by blast
          then show ?thesis by (simp add: k_def)
        next
          case False
          with \<open>t < k\<close> have "t = prev" by (simp add: k_def)
          moreover have "prev \<le> i" "prev \<le> j" using prev_ok by auto
          ultimately show ?thesis using bj by (simp add: k_def)
        qed
      qed
      have kb: "k \<le> Suc i - alo" "k \<le> j + 1 - blo" "1 \<le> k"
        using prev_ok assms(2) lo by (auto simp: k_def)
      have new_ok: "j2len_ok a b alo blo (Suc i) (newj2len(j \<mapsto> k))"
        using Cons.prems(2) kb kmatch unfolding j2len_ok_def by auto
      have best_new: "best_ok a b alo ahi blo bhi (i + 1 - k, j + 1 - k, k)"
        using kb kmatch assms(2,3) hi lo unfolding best_ok_def by auto
      have step: "flm_inner i blo bhi j2len (j # js) (newj2len, bst) =
          (if k > bestsize then flm_inner i blo bhi j2len js (newj2len(j \<mapsto> k), i + 1 - k, j + 1 - k, k)
           else flm_inner i blo bhi j2len js (newj2len(j \<mapsto> k), bst))"
        using lo hi by (simp add: bst k_def prev_def Let_def)
      show ?thesis
      proof (cases "k > bestsize")
        case True
        with step Cons.prems(4) have "flm_inner i blo bhi j2len js (newj2len(j \<mapsto> k), i + 1 - k, j + 1 - k, k) = (n', b')"
          by simp
        from Cons.IH[OF _ new_ok best_new this] Cons.prems(1) show ?thesis by simp
      next
        case False
        with step Cons.prems(4) have "flm_inner i blo bhi j2len js (newj2len(j \<mapsto> k), bst) = (n', b')"
          by simp
        from Cons.IH[OF _ new_ok Cons.prems(3) this] Cons.prems(1) show ?thesis by simp
      qed
    qed
  qed
qed

lemma flm_outer_inv:
  assumes "b2j_sound b b2j"
    and "j2len_ok a b alo blo i j2len" "best_ok a b alo ahi blo bhi bst"
    and "alo \<le> i"
    and "flm_outer a b2j blo bhi [i..<ahi] (j2len, bst) = (n', b')"
  shows "best_ok a b alo ahi blo bhi b'"
  using assms(2-)
proof (induction "ahi - i" arbitrary: i j2len bst)
  case 0
  then show ?case by simp
next
  case (Suc n)
  have ilt: "i < ahi" using Suc.hyps(2) by simp
  have up: "[i..<ahi] = i # [Suc i..<ahi]" using ilt by (simp add: upt_conv_Cons)
  define js where "js = (case b2j (a ! i) of None \<Rightarrow> [] | Some js \<Rightarrow> js)"
  have js_ok: "\<forall>j\<in>set js. b ! j = a ! i"
  proof (cases "b2j (a ! i)")
    case None
    then show ?thesis by (simp add: js_def)
  next
    case (Some l)
    with assms(1) show ?thesis unfolding b2j_sound_def js_def by auto
  qed
  obtain n1 b1 where r: "flm_inner i blo bhi j2len js (Map.empty, bst) = (n1, b1)"
    by (cases "flm_inner i blo bhi j2len js (Map.empty, bst)") auto
  from flm_inner_inv[OF Suc.prems(1) Suc.prems(3) ilt js_ok j2len_ok_empty Suc.prems(2) r]
  have inv1: "j2len_ok a b alo blo (Suc i) n1" "best_ok a b alo ahi blo bhi b1" by auto
  have run: "flm_outer a b2j blo bhi [Suc i..<ahi] (n1, b1) = (n', b')"
    using Suc.prems(4) r unfolding up by (simp add: js_def)
  have "n = ahi - Suc i" using Suc.hyps(2) by simp
  from Suc.hyps(1)[OF this inv1 _ run] Suc.prems(3) show ?case by simp
qed

lemma extend_left_inv:
  "best_ok a b alo ahi blo bhi bst \<Longrightarrow> best_ok a b alo ahi blo bhi (extend_left a b alo blo bst)"
proof (induction a b alo blo bst rule: extend_left.induct)
  case (1 a b alo blo besti bestj bestsize)
  show ?case
  proof (cases "besti > alo \<and> bestj > blo \<and> a ! (besti - 1) = b ! (bestj - 1)")
    case True
    then have c: "alo < besti" "blo < bestj" "a ! (besti - 1) = b ! (bestj - 1)" by auto
    from "1.prems" have m: "\<forall>t<bestsize. a ! (besti + t) = b ! (bestj + t)"
      and dj: "(bestsize = 0 \<and> besti = alo \<and> bestj = blo)
           \<or> (besti + bestsize \<le> ahi \<and> bestj + bestsize \<le> bhi)"
      unfolding best_ok_def by simp_all
    from dj c have bd: "besti + bestsize \<le> ahi" "bestj + bestsize \<le> bhi" by arith+
    have m': "\<forall>t<bestsize + 1. a ! (besti - 1 + t) = b ! (bestj - 1 + t)"
    proof (intro allI impI)
      fix t assume t: "t < bestsize + 1"
      show "a ! (besti - 1 + t) = b ! (bestj - 1 + t)"
      proof (cases t)
        case 0
        with c show ?thesis by simp
      next
        case (Suc u)
        with t m have "a ! (besti + u) = b ! (bestj + u)" by simp
        with Suc c show ?thesis by simp
      qed
    qed
    have "alo \<le> besti - 1" "blo \<le> bestj - 1" "besti - 1 + (bestsize + 1) \<le> ahi"
      "bestj - 1 + (bestsize + 1) \<le> bhi"
      using c bd by arith+
    with m' have "best_ok a b alo ahi blo bhi (besti - 1, bestj - 1, bestsize + 1)"
      unfolding best_ok_def by simp
    from "1.IH"[OF True this]
    have "best_ok a b alo ahi blo bhi (extend_left a b alo blo (besti - 1, bestj - 1, bestsize + 1))" .
    moreover have "extend_left a b alo blo (besti, bestj, bestsize)
        = extend_left a b alo blo (besti - 1, bestj - 1, bestsize + 1)"
      using c by (simp add: extend_left.simps[of a b alo blo besti bestj bestsize])
    ultimately show ?thesis by simp
  next
    case False
    then have "extend_left a b alo blo (besti, bestj, bestsize) = (besti, bestj, bestsize)"
      by (auto simp: extend_left.simps[of a b alo blo besti bestj bestsize])
    with "1.prems" show ?thesis by simp
  qed
qed

lemma extend_right_inv:
  "best_ok a b alo ahi blo bhi bst \<Longrightarrow> best_ok a b alo ahi blo bhi (extend_right a b ahi bhi bst)"
proof (induction a b ahi bhi bst rule: extend_right.induct)
  case (1 a b ahi bhi besti bestj bestsize)
  show ?case
  proof (cases "besti + bestsize < ahi \<and> bestj + bestsize < bhi
         \<and> a ! (besti + bestsize) = b ! (bestj + bestsize)")
    case True
    then have c: "besti + bestsize < ahi" "bestj + bestsize < bhi"
      "a ! (besti + bestsize) = b ! (bestj + bestsize)" by auto
    from "1.prems" have lo: "alo \<le> besti" "blo \<le> bestj"
      and m: "\<forall>t<bestsize. a ! (besti + t) = b ! (bestj + t)"
      unfolding best_ok_def by simp_all
    have m': "\<forall>t<bestsize + 1. a ! (besti + t) = b ! (bestj + t)"
    proof (intro allI impI)
      fix t assume "t < bestsize + 1"
      then have "t < bestsize \<or> t = bestsize" by arith
      then show "a ! (besti + t) = b ! (bestj + t)" using m c(3) by blast
    qed
    have "besti + (bestsize + 1) \<le> ahi" "bestj + (bestsize + 1) \<le> bhi"
      using c by arith+
    with m' lo have "best_ok a b alo ahi blo bhi (besti, bestj, bestsize + 1)"
      unfolding best_ok_def by simp
    from "1.IH"[OF True this]
    have "best_ok a b alo ahi blo bhi (extend_right a b ahi bhi (besti, bestj, bestsize + 1))" .
    moreover have "extend_right a b ahi bhi (besti, bestj, bestsize)
        = extend_right a b ahi bhi (besti, bestj, bestsize + 1)"
      using c by (simp add: extend_right.simps[of a b ahi bhi besti bestj bestsize])
    ultimately show ?thesis by simp
  next
    case False
    then have "extend_right a b ahi bhi (besti, bestj, bestsize) = (besti, bestj, bestsize)"
      by (auto simp: extend_right.simps[of a b ahi bhi besti bestj bestsize])
    with "1.prems" show ?thesis by simp
  qed
qed

lemma fold_b2j_sound:
  assumes "\<forall>(i, e)\<in>set ps. b ! i = e" "b2j_sound b m"
  shows "b2j_sound b (fold (\<lambda>(i, elt) m. m(elt \<mapsto> (case m elt of None \<Rightarrow> [] | Some idxs \<Rightarrow> idxs) @ [i])) ps m)"
  using assms
proof (induction ps arbitrary: m)
  case Nil
  then show ?case by simp
next
  case (Cons p ps)
  obtain i e where p: "p = (i, e)" by (cases p) auto
  have be: "b ! i = e" using Cons.prems(1) p by simp
  define old where "old = (case m e of None \<Rightarrow> [] | Some idxs \<Rightarrow> idxs)"
  have old: "\<forall>j\<in>set old. b ! j = e"
  proof (cases "m e")
    case None
    then show ?thesis by (simp add: old_def)
  next
    case (Some l)
    with Cons.prems(2) show ?thesis unfolding b2j_sound_def old_def by auto
  qed
  have "b2j_sound b (m(e \<mapsto> old @ [i]))"
    unfolding b2j_sound_def
  proof (intro allI impI)
    fix x js j assume h: "(m(e \<mapsto> old @ [i])) x = Some js" "j \<in> set js"
    show "b ! j = x"
    proof (cases "x = e")
      case True
      with h have "j \<in> set old \<or> j = i" by auto
      with old be True show ?thesis by auto
    next
      case False
      with h have "m x = Some js" by simp
      with Cons.prems(2) h(2) show ?thesis unfolding b2j_sound_def by blast
    qed
  qed
  then have step: "b2j_sound b (m(e \<mapsto> (case m e of None \<Rightarrow> [] | Some idxs \<Rightarrow> idxs) @ [i]))"
    by (simp add: old_def)
  have rest: "\<forall>(i, e)\<in>set ps. b ! i = e" using Cons.prems(1) by simp
  from Cons.IH[OF rest step] show ?case by (simp add: p)
qed

lemma chain_b_sound: "b2j_sound b (chain_b b)"
proof -
  let ?f = "fold (\<lambda>(i, elt) m. m(elt \<mapsto> (case m elt of None \<Rightarrow> [] | Some idxs \<Rightarrow> idxs) @ [i]))
                  (enumerate 0 b) Map.empty"
  have "\<forall>(i, e)\<in>set (enumerate 0 b). b ! i = e"
    by (auto simp: in_set_enumerate_eq)
  moreover have "b2j_sound b Map.empty" by (simp add: b2j_sound_def)
  ultimately have s: "b2j_sound b ?f" by (rule fold_b2j_sound)
  then have "b2j_sound b (\<lambda>elt. case ?f elt of None \<Rightarrow> None
                      | Some idxs \<Rightarrow> if length idxs > length b div 100 + 1 then None else Some idxs)"
    unfolding b2j_sound_def by (auto split: option.splits if_splits)
  with s show ?thesis unfolding chain_b_def Let_def by simp
qed

lemma find_longest_match_ok:
  assumes "b2j_sound b b2j"
  shows "best_ok a b alo ahi blo bhi (find_longest_match a b b2j alo ahi blo bhi)"
proof -
  obtain n' b' where r: "flm_outer a b2j blo bhi [alo..<ahi] (Map.empty, alo, blo, 0) = (n', b')"
    by (cases "flm_outer a b2j blo bhi [alo..<ahi] (Map.empty, alo, blo, 0)") auto
  have "best_ok a b alo ahi blo bhi (alo, blo, 0)" by (simp add: best_ok_def)
  from flm_outer_inv[OF assms j2len_ok_empty this _ r] have "best_ok a b alo ahi blo bhi b'" by simp
  then show ?thesis
    unfolding find_longest_match_def r by (simp add: extend_left_inv extend_right_inv)
qed


subsection \<open>Matching blocks, opcodes and ratio\<close>

text \<open>
  \<open>get_matching_blocks\<close> keeps a list \<open>queue\<close> of windows still to match; \<open>queue.pop()\<close>
  takes the window appended last. The list is kept here with that window first.
\<close>

type_synonym region = "nat \<times> nat \<times> nat \<times> nat"

definition queue_measure :: "region list \<Rightarrow> nat" where
  "queue_measure q = sum_list (map (\<lambda>(alo, ahi, blo, bhi). 2 * (ahi - alo) + 1) q)"

lemma flm_bounds:
  assumes "find_longest_match a b (chain_b b) alo ahi blo bhi = (i, j, k)" "k \<noteq> 0"
  shows "alo \<le> i \<and> i + k \<le> ahi \<and> blo \<le> j \<and> j + k \<le> bhi"
proof -
  have "best_ok a b alo ahi blo bhi (find_longest_match a b (chain_b b) alo ahi blo bhi)"
    by (rule find_longest_match_ok[OF chain_b_sound])
  with assms show ?thesis unfolding best_ok_def by simp
qed

function gmb_loop :: "'a list \<Rightarrow> 'a list \<Rightarrow> region list \<Rightarrow> best list \<Rightarrow> best list" where
  "gmb_loop a b [] matching_blocks = matching_blocks"
| "gmb_loop a b ((alo, ahi, blo, bhi) # queue) matching_blocks =
     (case find_longest_match a b (chain_b b) alo ahi blo bhi of (i, j, k) \<Rightarrow>
        if k \<noteq> 0
        then gmb_loop a b
               ((if i + k < ahi \<and> j + k < bhi then [(i + k, ahi, j + k, bhi)] else [])
                @ (if alo < i \<and> blo < j then [(alo, i, blo, j)] else []) @ queue)
               (matching_blocks @ [(i, j, k)])
        else gmb_loop a b queue matching_blocks)"
  by pat_completeness auto
termination
proof (relation "measure (\<lambda>(a, b, q, mb). queue_measure q)", goal_cases)
  case 1
  show ?case by simp
next
  case (2 a b alo ahi blo bhi queue mb x y xa ya)
  then have "find_longest_match a b (chain_b b) alo ahi blo bhi = (x, xa, ya)" by simp
  from flm_bounds[OF this] 2 have "alo \<le> x" "x + ya \<le> ahi" "0 < ya" by simp_all
  then show ?case by (auto simp: queue_measure_def)
next
  case 3
  show ?case by (simp add: queue_measure_def)
qed


fun collapse :: "best \<Rightarrow> best list \<Rightarrow> best list \<Rightarrow> best list" where
  \<comment> \<open>The loop that merges adjacent blocks; \<open>(i1, j1, k1)\<close> is the block being grown.\<close>
  "collapse (i1, j1, k1) non_adjacent [] =
     (if k1 \<noteq> 0 then non_adjacent @ [(i1, j1, k1)] else non_adjacent)"
| "collapse (i1, j1, k1) non_adjacent ((i2, j2, k2) # rest) =
     (if i1 + k1 = i2 \<and> j1 + k1 = j2 then collapse (i1, j1, k1 + k2) non_adjacent rest
      else collapse (i2, j2, k2)
             (if k1 \<noteq> 0 then non_adjacent @ [(i1, j1, k1)] else non_adjacent) rest)"

definition get_matching_blocks :: "'a list \<Rightarrow> 'a list \<Rightarrow> best list" where
  "get_matching_blocks a b =
     (let la = length a; lb = length b;
          matching_blocks = sort (gmb_loop a b [(0, la, 0, lb)] [])
      in collapse (0, 0, 0) [] matching_blocks @ [(la, lb, 0)])"

datatype tag = Replace | Delete | Insert | Equal

type_synonym opcode = "tag \<times> nat \<times> nat \<times> nat \<times> nat"

fun opcodes_loop :: "nat \<Rightarrow> nat \<Rightarrow> best list \<Rightarrow> opcode list" where
  \<comment> \<open>The loop of \<open>get_opcodes\<close>; \<open>i\<close>, \<open>j\<close> are how far \<open>a\<close> and \<open>b\<close> are covered.\<close>
  "opcodes_loop i j [] = []"
| "opcodes_loop i j ((ai, bj, sz) # rest) =
     (if i < ai \<and> j < bj then [(Replace, i, ai, j, bj)]
      else if i < ai then [(Delete, i, ai, j, bj)]
      else if j < bj then [(Insert, i, ai, j, bj)]
      else [])
     @ (if sz \<noteq> 0 then [(Equal, ai, ai + sz, bj, bj + sz)] else [])
     @ opcodes_loop (ai + sz) (bj + sz) rest"

definition get_opcodes :: "'a list \<Rightarrow> 'a list \<Rightarrow> opcode list" where
  "get_opcodes a b = opcodes_loop 0 0 (get_matching_blocks a b)"

definition matches :: "'a list \<Rightarrow> 'a list \<Rightarrow> nat" where
  \<comment> \<open>\<open>sum(triple[-1] for triple in self.get_matching_blocks())\<close>\<close>
  "matches a b = sum_list (map (\<lambda>(i, j, k). k) (get_matching_blocks a b))"

section \<open>The diff engine\<close>

record diff_result =
  added :: "string list"
  removed :: "string list"

fun diff_loop :: "string \<Rightarrow> string \<Rightarrow> opcode list \<Rightarrow> diff_result \<Rightarrow> diff_result" where
  "diff_loop a b [] d = d"
| "diff_loop a b ((tg, i1, i2, j1, j2) # ops) d =
     (if tg = Insert then diff_loop a b ops (d\<lparr>added := added d @ [slice b j1 j2]\<rparr>)
      else if tg = Delete then diff_loop a b ops (d\<lparr>removed := removed d @ [slice a i1 i2]\<rparr>)
      else diff_loop a b ops d)"

definition simple_diff :: "string \<Rightarrow> string \<Rightarrow> diff_result" where
  "simple_diff a b = diff_loop a b (get_opcodes a b) \<lparr>added = [], removed = []\<rparr>"

section \<open>The similarity scorer\<close>

text \<open>
  A Python \<open>float\<close> is an IEEE 754 binary64 number. A finite one is modelled by its exact
  rational value, and every arithmetic operation by the exact operation followed by
  \<open>fl\<close>, rounding to the nearest number with a 53-bit significand, ties to even, with
  the subnormal spacing below \<open>2 ^ (-1022)\<close>. (Overflow needs operands beyond
  \<open>10 ^ 308\<close>, which lengths and ratios of strings do not reach.) The literals \<open>0.6\<close>
  and \<open>0.4\<close> are \<open>fl (6 / 10)\<close> and \<open>fl (4 / 10)\<close>; \<open>int / int\<close> is the correctly rounded
  quotient; an \<open>int\<close> meeting a \<open>float\<close> is converted by \<open>fl\<close> first.
\<close>

definition rhe :: "rat \<Rightarrow> int" where
  "rhe x = (let f = \<lfloor>x\<rfloor>; r = x - of_int f
            in if r < 1 / 2 then f else if 1 / 2 < r then f + 1
               else if even f then f else f + 1)"

definition binexp :: "rat \<Rightarrow> int" where
  "binexp x = (if 1 \<le> x then bitlen \<lfloor>x\<rfloor> - 1 else - bitlen (\<lceil>1 / x\<rceil> - 1))"

definition ulp :: "int \<Rightarrow> rat" where
  "ulp e = (if 52 \<le> e then 2 ^ nat (e - 52) else 1 / 2 ^ nat (52 - e))"

definition fl :: "rat \<Rightarrow> rat" where
  "fl x = (if x = 0 then 0
           else (let e = max (binexp \<bar>x\<bar>) (- 1022); u = ulp e
                 in sgn x * of_int (rhe (\<bar>x\<bar> / u)) * u))"

text \<open>
  \<open>SequenceMatcher.ratio\<close>: \<open>2.0 * matches / length\<close>, or \<open>1.0\<close> when both are empty.
\<close>

definition ratio :: "'a list \<Rightarrow> 'a list \<Rightarrow> rat" where
  "ratio a b =
     (let length = length a + length b
      in if length \<noteq> 0
         then fl (fl (2 * fl (of_nat (matches a b))) / fl (of_nat length))
         else 1)"

definition fuzzy_ratio :: "string \<Rightarrow> string \<Rightarrow> rat" where
  "fuzzy_ratio a b =
     (if a = [] \<and> b = [] then 1
      else if a = [] \<or> b = [] then 0
      else (let a_tokens = set (split (lower a));
                b_tokens = set (split (lower b))
            in if a_tokens = {} \<or> b_tokens = {} then 0
               else (let inter = a_tokens \<inter> b_tokens;
                         union = a_tokens \<union> b_tokens;
                         token_score = fl (of_nat (card inter) / of_nat (card union));
                         seq = ratio a b
                     in fl (fl (fl (6 / 10) * token_score) + fl (fl (4 / 10) * seq)))))"

definition clause_similarity :: "string \<Rightarrow> string \<Rightarrow> rat" where
  "clause_similarity a b = fuzzy_ratio a b"

text \<open>
  Claim C1, as the code has it. The token part of the score is symmetric, and so is the
  score whenever the sequence ratio of \<open>(a, b)\<close> equals that of \<open>(b, a)\<close>, in particular
  when either string is empty or has no token. The sequence ratio itself depends on the
  order of its arguments, so the score is not symmetric in general.
\<close>

theorem fuzzy_ratio_symmetric_when_ratio_is:
  "(ratio a b = ratio b a \<longrightarrow> fuzzy_ratio a b = fuzzy_ratio b a)
   \<and> (a = [] \<or> b = [] \<or> split (lower a) = [] \<or> split (lower b) = []
        \<longrightarrow> fuzzy_ratio a b = fuzzy_ratio b a)
   \<and> fl (of_nat (card (set (split (lower a)) \<inter> set (split (lower b))))
           / of_nat (card (set (split (lower a)) \<union> set (split (lower b)))))
     = fl (of_nat (card (set (split (lower b)) \<inter> set (split (lower a))))
           / of_nat (card (set (split (lower b)) \<union> set (split (lower a)))))"
proof (intro conjI impI)
  assume "ratio a b = ratio b a"
  then show "fuzzy_ratio a b = fuzzy_ratio b a"
    unfolding fuzzy_ratio_def Let_def by (simp add: Int_commute Un_commute disj_commute conj_commute)
next
  assume "a = [] \<or> b = [] \<or> split (lower a) = [] \<or> split (lower b) = []"
  then show "fuzzy_ratio a b = fuzzy_ratio b a"
    unfolding fuzzy_ratio_def Let_def by auto
next
  show "fl (of_nat (card (set (split (lower a)) \<inter> set (split (lower b))))
           / of_nat (card (set (split (lower a)) \<union> set (split (lower b)))))
     = fl (of_nat (card (set (split (lower b)) \<inter> set (split (lower a))))
           / of_nat (card (set (split (lower b)) \<union> set (split (lower a)))))"
    by (simp add: Int_commute Un_commute)
qed

theorem fuzzy_ratio_symmetric_when_ratio_is_witness:
  "ratio ''rate card'' ''rate cart'' = ratio ''rate cart'' ''rate card''
   \<and> fuzzy_ratio ''rate card'' ''rate cart'' = fuzzy_ratio ''rate cart'' ''rate card''
   \<and> fuzzy_ratio ''  '' ''rate card'' = fuzzy_ratio ''rate card'' ''  ''"
proof -
  have r: "ratio ''rate card'' ''rate cart'' = ratio ''rate cart'' ''rate card''"
    by code_simp
  have e: "''  '' = [] \<or> ''rate card'' = [] \<or> split (lower ''  '') = [] \<or> split (lower ''rate card'') = []"
    by code_simp
  from fuzzy_ratio_symmetric_when_ratio_is[of "''rate card''" "''rate cart''"] r
  have 1: "fuzzy_ratio ''rate card'' ''rate cart'' = fuzzy_ratio ''rate cart'' ''rate card''"
    by blast
  from fuzzy_ratio_symmetric_when_ratio_is[of "''  ''" "''rate card''"] e
  have 2: "fuzzy_ratio ''  '' ''rate card'' = fuzzy_ratio ''rate card'' ''  ''"
    by blast
  from r 1 2 show ?thesis by blast
qed

text \<open>
  As a statement about every pair of strings the claim fails: \<open>tide\<close> against \<open>diet\<close>
  scores \<open>0.4 * 0.25\<close>, and \<open>diet\<close> against \<open>tide\<close> scores \<open>0.4 * 0.5\<close>.
\<close>

theorem fuzzy_ratio_asymmetric_counterexample:
  "fuzzy_ratio ''tide'' ''diet'' \<noteq> fuzzy_ratio ''diet'' ''tide''
   \<and> fuzzy_ratio ''tide'' ''diet'' = fl (fl (4 / 10) * (1 / 4))
   \<and> fuzzy_ratio ''diet'' ''tide'' = fl (fl (4 / 10) * (1 / 2))"
  by code_simp

section \<open>The pattern scanner: keyword check\<close>

text \<open>
  \<open>AgreementValidator._keyword_check(text, keywords)\<close>: the text is lower-cased once and
  each keyword is looked up in it as written. The constructor stores the configured
  keyword lists lower-cased (\<open>[k.lower() for k in ...]\<close>).
\<close>

definition keyword_check :: "string \<Rightarrow> string list \<Rightarrow> string list" where
  "keyword_check text keywords = (let t = lower text in filter (\<lambda>k. contains t k) keywords)"

lemma contains_iff: "contains t k \<longleftrightarrow> (\<exists>p s. t = p @ k @ s)"
proof (induction t)
  case Nil
  then show ?case by auto
next
  case (Cons c cs)
  show ?case
  proof
    assume "contains (c # cs) k"
    then consider "take (length k) (c # cs) = k" | "contains cs k" by auto
    then show "\<exists>p s. c # cs = p @ k @ s"
    proof cases
      case 1
      then have "c # cs = [] @ k @ drop (length k) (c # cs)"
        by (metis append_Nil append_take_drop_id)
      then show ?thesis by blast
    next
      case 2
      with Cons obtain p s where "cs = p @ k @ s" by blast
      then have "c # cs = (c # p) @ k @ s" by simp
      then show ?thesis by blast
    qed
  next
    assume "\<exists>p s. c # cs = p @ k @ s"
    then obtain p s where e: "c # cs = p @ k @ s" by blast
    show "contains (c # cs) k"
    proof (cases p)
      case Nil
      with e have "take (length k) (c # cs) = k" by simp
      then show ?thesis by simp
    next
      case (Cons d p')
      with e have "cs = p' @ k @ s" by simp
      with Cons.IH show ?thesis by auto
    qed
  qed
qed

lemma lower_char_idem: "lower_char (lower_char c) = lower_char c"
proof -
  define n where "n = (of_char c :: nat)"
  have n: "n < 256" unfolding n_def by simp
  show ?thesis
  proof (cases "(65 \<le> n \<and> n \<le> 90) \<or> (192 \<le> n \<and> n \<le> 222 \<and> n \<noteq> 215)")
    case True
    then have l: "lower_char c = char_of (n + 32)"
      by (simp add: lower_char_def n_def Let_def)
    have "n + 32 < 256" using True by arith
    then have m: "(n + 32) mod 256 = n + 32" by simp
    have "\<not> ((65 \<le> n + 32 \<and> n + 32 \<le> 90) \<or> (192 \<le> n + 32 \<and> n + 32 \<le> 222 \<and> n + 32 \<noteq> 215))"
      using True by arith
    then show ?thesis unfolding l
      by (simp add: lower_char_def[of "char_of (n + 32)"] m Let_def)
  next
    case False
    then have "lower_char c = c" unfolding lower_char_def n_def Let_def by auto
    then show ?thesis by simp
  qed
qed

lemma lower_idem: "lower (lower s) = lower s"
  by (simp add: lower_def lower_char_idem)

definition stored_keywords :: "string list \<Rightarrow> string list" where
  \<comment> \<open>\<open>AgreementValidator.__init__\<close>: \<open>[k.lower() for k in self.cfg.get(..., [])]\<close>, the
      keyword lists as the validator stores them and passes them to the check.\<close>
  "stored_keywords configured = map lower configured"

text \<open>
  Claim C7, as the code has it. For every text and keyword list, the keyword check returns
  exactly the keywords of the list, in the list's order, that occur \<^emph>\<open>as written\<close> as a
  substring of the lower-cased text: the check does not lower-case a keyword. For a list
  whose keywords are all lower-case, and so for every list the constructor stores, these
  are the keywords whose lowercase form occurs in the lower-cased text. In particular
  \<open>[''rate card'']\<close> is returned in full when the text contains \<open>Rate Card\<close> in any case,
  and \<open>[]\<close> when the lower-cased text contains neither \<open>rate card\<close> nor \<open>rate-card\<close>.
\<close>

theorem keyword_check_subset:
  "keyword_check text ks = filter (\<lambda>k. \<exists>p s. lower text = p @ k @ s) ks
   \<and> ((\<forall>k\<in>set ks. lower k = k)
        \<longrightarrow> keyword_check text ks = filter (\<lambda>k. \<exists>p s. lower text = p @ lower k @ s) ks)
   \<and> keyword_check text (stored_keywords ks)
        = filter (\<lambda>k. \<exists>p s. lower text = p @ lower k @ s) (stored_keywords ks)
   \<and> keyword_check text (map lower ks)
        = filter (\<lambda>k. \<exists>p s. lower text = p @ lower k @ s) (map lower ks)
   \<and> ((\<exists>p s. lower text = p @ lower ''Rate Card'' @ s)
        \<longrightarrow> keyword_check text [''rate card''] = [''rate card''])
   \<and> (\<not> (\<exists>p s. lower text = p @ ''rate card'' @ s) \<and> \<not> (\<exists>p s. lower text = p @ ''rate-card'' @ s)
        \<longrightarrow> keyword_check text [''rate card''] = [])"
proof -
  have general: "keyword_check text xs = filter (\<lambda>k. \<exists>p s. lower text = p @ k @ s) xs" for xs
    unfolding keyword_check_def Let_def
    by (rule filter_cong) (simp_all add: contains_iff)
  have lowered: "keyword_check text xs = filter (\<lambda>k. \<exists>p s. lower text = p @ lower k @ s) xs"
    if "\<forall>k\<in>set xs. lower k = k" for xs
    unfolding general
  proof (rule filter_cong)
    fix k assume "k \<in> set xs"
    with that have "lower k = k" by blast
    then show "(\<exists>p s. lower text = p @ k @ s) = (\<exists>p s. lower text = p @ lower k @ s)"
      by simp
  qed simp
  have stored: "\<forall>k\<in>set (map lower ks). lower k = k"
    by (auto simp: lower_idem)
  have rc: "lower ''Rate Card'' = ''rate card''"
    by code_simp
  show ?thesis
  proof (intro conjI impI)
    show "keyword_check text ks = filter (\<lambda>k. \<exists>p s. lower text = p @ k @ s) ks"
      by (rule general)
  next
    assume "\<forall>k\<in>set ks. lower k = k"
    then show "keyword_check text ks = filter (\<lambda>k. \<exists>p s. lower text = p @ lower k @ s) ks"
      by (rule lowered)
  next
    show "keyword_check text (stored_keywords ks)
        = filter (\<lambda>k. \<exists>p s. lower text = p @ lower k @ s) (stored_keywords ks)"
      unfolding stored_keywords_def by (rule lowered[OF stored])
  next
    show "keyword_check text (map lower ks)
        = filter (\<lambda>k. \<exists>p s. lower text = p @ lower k @ s) (map lower ks)"
      by (rule lowered[OF stored])
  next
    assume "\<exists>p s. lower text = p @ lower ''Rate Card'' @ s"
    then have "\<exists>p s. lower text = p @ ''rate card'' @ s"
      unfolding rc .
    then show "keyword_check text [''rate card''] = [''rate card'']"
      unfolding general by simp
  next
    assume "\<not> (\<exists>p s. lower text = p @ ''rate card'' @ s) \<and> \<not> (\<exists>p s. lower text = p @ ''rate-card'' @ s)"
    then have "\<not> (\<exists>p s. lower text = p @ ''rate card'' @ s)" by blast
    then show "keyword_check text [''rate card''] = []"
      unfolding general by simp
  qed
qed

theorem keyword_check_subset_witness:
  "keyword_check ''our price list'' [''Rate Card'', ''price list''] = [''price list'']
   \<and> keyword_check ''Our Rate Card and PRICE LIST'' [''rate card'', ''rate-card'', ''price list'']
     = [''rate card'', ''price list'']
   \<and> keyword_check ''Our Rate Card and PRICE LIST''
       (stored_keywords [''Rate Card'', ''rate-card'', ''Price List''])
     = [''rate card'', ''price list'']
   \<and> keyword_check ''see the RATE CARD below'' [''rate card''] = [''rate card'']
   \<and> keyword_check ''no pricing here'' [''rate card''] = []"
proof (intro conjI)
  have "filter (\<lambda>k. contains (lower ''our price list'') k) [''Rate Card'', ''price list'']
      = [''price list'']"
    by code_simp
  with keyword_check_subset[of "''our price list''" "[''Rate Card'', ''price list'']"]
  show "keyword_check ''our price list'' [''Rate Card'', ''price list''] = [''price list'']"
    by (simp only: contains_iff)
next
  have low: "\<forall>k\<in>set [''rate card'', ''rate-card'', ''price list'']. lower k = k"
    by code_simp
  from keyword_check_subset[of "''Our Rate Card and PRICE LIST''"
      "[''rate card'', ''rate-card'', ''price list'']"] low
  have "keyword_check ''Our Rate Card and PRICE LIST'' [''rate card'', ''rate-card'', ''price list'']
      = filter (\<lambda>k. \<exists>p s. lower ''Our Rate Card and PRICE LIST'' = p @ lower k @ s)
          [''rate card'', ''rate-card'', ''price list'']"
    by blast
  also have "\<dots> = filter (\<lambda>k. contains (lower ''Our Rate Card and PRICE LIST'') (lower k))
          [''rate card'', ''rate-card'', ''price list'']"
    by (simp only: contains_iff)
  also have "\<dots> = [''rate card'', ''price list'']"
    by code_simp
  finally show "keyword_check ''Our Rate Card and PRICE LIST'' [''rate card'', ''rate-card'', ''price list'']
     = [''rate card'', ''price list'']" .
next
  show "keyword_check ''Our Rate Card and PRICE LIST''
       (stored_keywords [''Rate Card'', ''rate-card'', ''Price List''])
     = [''rate card'', ''price list'']"
    by code_simp
next
  have h: "\<exists>p s. lower ''see the RATE CARD below'' = p @ lower ''Rate Card'' @ s"
    unfolding contains_iff[symmetric] by code_simp
  from keyword_check_subset[of "''see the RATE CARD below''" "[]"] h
  show "keyword_check ''see the RATE CARD below'' [''rate card''] = [''rate card'']" by blast
next
  have h: "\<not> (\<exists>p s. lower ''no pricing here'' = p @ ''rate card'' @ s)
      \<and> \<not> (\<exists>p s. lower ''no pricing here'' = p @ ''rate-card'' @ s)"
    unfolding contains_iff[symmetric] by code_simp
  from keyword_check_subset[of "''no pricing here''" "[]"] h
  show "keyword_check ''no pricing here'' [''rate card''] = []" by blast
qed

text \<open>
  The claim as the specification words it, with the keyword lower-cased by the check
  itself, fails for a keyword that is not lower-case: \<open>Rate Card\<close> is looked up as
  written in \<open>our rate card\<close> and not found, although its lowercase form occurs there.
\<close>

theorem keyword_check_mixed_case_counterexample:
  "keyword_check ''Our Rate Card'' [''Rate Card''] = []
   \<and> filter (\<lambda>k. contains (lower ''Our Rate Card'') (lower k)) [''Rate Card''] = [''Rate Card'']"
  by code_simp

section \<open>The validation orchestrator\<close>

text \<open>
  A compiled pattern is used only through its method \<open>findall\<close>; the validator holds the
  two patterns as these functions (\<open>'m\<close> is what \<open>findall\<close> lists: strings, or tuples of
  strings for a pattern with several groups). The text of a document is what
  \<open>extract_text_and_images\<close> returns for its path; the extractor is a parameter
  \<open>extract\<close> of \<open>validate\<close>. It returns a string and never raises, so the \<open>except\<close>
  branch around the extraction of an extra document is never taken.
\<close>

record 'm validator =
  pan_re :: "string \<Rightarrow> 'm list"
  gst_re :: "string \<Rightarrow> 'm list"
  coi_keywords :: "string list"
  ratecard_keywords :: "string list"
  sim_threshold :: rat

definition search_pan_gst :: "'m validator \<Rightarrow> string \<Rightarrow> 'm list \<times> 'm list" where
  \<comment> \<open>\<open>_search_pan_gst\<close>\<close>
  "search_pan_gst v text = (if text = [] then ([], []) else (pan_re v text, gst_re v text))"

record sample =
  main :: string
  best_match :: "string option"
  score :: rat

fun best_loop :: "string \<Rightarrow> string list \<Rightarrow> rat \<times> string option \<Rightarrow> rat \<times> string option" where
  \<comment> \<open>\<open>for c in client_lines[:40]\<close>, on the pair \<open>(best, best_line)\<close>\<close>
  "best_loop m [] (best, best_line) = (best, best_line)"
| "best_loop m (c # cs) (best, best_line) =
     (let sim = clause_similarity m c
      in if sim > best then best_loop m cs (sim, Some c) else best_loop m cs (best, best_line))"

definition text_lines :: "string \<Rightarrow> string list" where
  \<comment> \<open>\<open>[l.strip() for l in (text or "").splitlines() if l.strip()][:200]\<close>\<close>
  "text_lines text = take 200 (map strip (filter (\<lambda>l. strip l \<noteq> []) (splitlines text)))"

definition similarities :: "string list \<Rightarrow> string list \<Rightarrow> sample list" where
  "similarities main_lines client_lines =
     map (\<lambda>m. case best_loop m (take 40 client_lines) (0, None) of
                 (best, best_line) \<Rightarrow> \<lparr>main = m, best_match = best_line, score = best\<rparr>)
         (take 20 main_lines)"

definition normalize_text :: "string \<Rightarrow> string" where
  \<comment> \<open>\<open>if not (text and text.strip()): text = ""\<close>\<close>
  "normalize_text text = (if \<not> (text \<noteq> [] \<and> strip text \<noteq> []) then [] else text)"

record 'm doc_summary =
  doc_pan :: "'m list"
  doc_gst :: "'m list"
  doc_coi_keywords :: "string list"
  doc_rate_keywords :: "string list"
  text_snippet :: string

record 'a main_client =
  of_main :: 'a
  of_client :: 'a

record 'm report =
  pan :: "'m list main_client"
  gst :: "'m list main_client"
  coi_kw :: "string list main_client"
  rate_kw :: "string list main_client"
  diff :: diff_result
  clause_similarity_samples :: "sample list"
  documents :: "(string \<times> 'm doc_summary) list"

function str_nat :: "nat \<Rightarrow> string" where
  \<comment> \<open>\<open>str(n)\<close>: the decimal digits of \<open>n\<close>\<close>
  "str_nat n = (if n < 10 then [char_of (48 + n)]
                else str_nat (n div 10) @ [char_of (48 + n mod 10)])"
  by pat_completeness auto
termination
  by (relation "measure id") auto

declare str_nat.simps [simp del]

definition doc_name_at :: "string list \<Rightarrow> nat \<Rightarrow> string" where
  \<comment> \<open>\<open>document_names[idx] if idx < len(document_names) else f"document_{idx+1}.pdf"\<close>\<close>
  "doc_name_at document_names idx =
     (if idx < length document_names then document_names ! idx
      else ''document_'' @ str_nat (idx + 1) @ ''.pdf'')"

fun dict_set :: "('k \<times> 'v) list \<Rightarrow> 'k \<Rightarrow> 'v \<Rightarrow> ('k \<times> 'v) list" where
  \<comment> \<open>\<open>d[k] = v\<close> on a dictionary kept as its items in insertion order\<close>
  "dict_set [] k v = [(k, v)]"
| "dict_set ((k', v') # d) k v = (if k' = k then (k, v) # d else (k', v') # dict_set d k v)"

definition summarize :: "(string \<Rightarrow> string) \<Rightarrow> 'm validator \<Rightarrow> string \<Rightarrow> 'm doc_summary" where
  \<comment> \<open>The body of the loop over the extra documents, for one path.\<close>
  "summarize extract v doc_path =
     (let d_text = normalize_text (extract doc_path);
          (pan_d, gst_d) = search_pan_gst v d_text
      in \<lparr>doc_pan = pan_d, doc_gst = gst_d,
          doc_coi_keywords = keyword_check d_text (coi_keywords v),
          doc_rate_keywords = keyword_check d_text (ratecard_keywords v),
          text_snippet = take 1000 d_text\<rparr>)"

fun documents_loop :: "(string \<Rightarrow> string) \<Rightarrow> 'm validator \<Rightarrow> string list \<Rightarrow> (nat \<times> string) list
    \<Rightarrow> (string \<times> 'm doc_summary) list \<Rightarrow> (string \<times> 'm doc_summary) list" where
  \<comment> \<open>\<open>for idx, doc_path in enumerate(documents)\<close>\<close>
  "documents_loop extract v document_names [] documents_summary = documents_summary"
| "documents_loop extract v document_names ((idx, doc_path) # rest) documents_summary =
     documents_loop extract v document_names rest
       (dict_set documents_summary (doc_name_at document_names idx) (summarize extract v doc_path))"

definition validate :: "(string \<Rightarrow> string) \<Rightarrow> 'm validator \<Rightarrow> string \<Rightarrow> string
    \<Rightarrow> string list \<Rightarrow> string list \<Rightarrow> 'm report" where
  "validate extract v main_pdf client_pdf docs document_names =
     (let main_text = normalize_text (extract main_pdf);
          client_text = normalize_text (extract client_pdf);
          (pan_main, gst_main) = search_pan_gst v main_text;
          (pan_client, gst_client) = search_pan_gst v client_text;
          main_lines = text_lines main_text;
          client_lines = text_lines client_text
      in \<lparr>pan = \<lparr>of_main = pan_main, of_client = pan_client\<rparr>,
          gst = \<lparr>of_main = gst_main, of_client = gst_client\<rparr>,
          coi_kw = \<lparr>of_main = keyword_check main_text (coi_keywords v),
                    of_client = keyword_check client_text (coi_keywords v)\<rparr>,
          rate_kw = \<lparr>of_main = keyword_check main_text (ratecard_keywords v),
                     of_client = keyword_check client_text (ratecard_keywords v)\<rparr>,
          diff = simple_diff main_text client_text,
          clause_similarity_samples = similarities main_lines client_lines,
          documents = documents_loop extract v document_names (enumerate 0 docs) []\<rparr>)"

end
